theory Spec2Isabelle
  imports Complex_Main "HOL-Library.Product_Lexorder" "HOL-Library.List_Lexorder"
    "HOL-Library.Char_ord"
begin

section \<open>Python values, errors and floats\<close>

text \<open>
  The word analyzer is Python. Exceptions are values of the type \<open>error\<close>; a function that
  can raise returns \<open>error + 'a\<close>, with \<open>Inl\<close> for the exception. Strings are \<open>string\<close>
  (one \<open>char\<close> per character). A value that the source checks with \<open>isinstance\<close> is a
  \<open>pyval\<close>.
\<close>

datatype error =
    ValueError string
  | TypeError string
  | AssertionError
  | IndexError

datatype pyval = PStr string | PInt int | PNone

fun is_str :: "pyval \<Rightarrow> bool" where
  "is_str (PStr s) = True"
| "is_str v = False"

fun the_str :: "pyval \<Rightarrow> string" where
  "the_str (PStr s) = s"
| "the_str v = []"

text \<open>
  Costs are Python floats. A finite float is modelled by the real number it stands for
  (rounding is not modelled); \<open>PInf\<close> is the value of the literal \<open>9e999\<close>, positive
  infinity. The integers \<open>0\<close> and \<open>1000\<close> that the source mixes with floats are \<open>Fin 0\<close>
  and \<open>Fin 1000\<close>. No operation of the program produces a NaN or a negative infinity:
  \<open>math.log\<close> raises instead of returning them.
\<close>

datatype pyfloat = Fin real | PInf

instantiation pyfloat :: linorder
begin

definition less_eq_pyfloat :: "pyfloat \<Rightarrow> pyfloat \<Rightarrow> bool" where
  "less_eq_pyfloat a b =
     (case b of PInf \<Rightarrow> True
      | Fin y \<Rightarrow> (case a of PInf \<Rightarrow> False | Fin x \<Rightarrow> x \<le> y))"

definition less_pyfloat :: "pyfloat \<Rightarrow> pyfloat \<Rightarrow> bool" where
  "less_pyfloat a b =
     (case a of PInf \<Rightarrow> False
      | Fin x \<Rightarrow> (case b of PInf \<Rightarrow> True | Fin y \<Rightarrow> x < y))"

instance
proof
  fix x y z :: pyfloat
  show "(x < y) = (x \<le> y \<and> \<not> y \<le> x)"
    by (cases x; cases y) (auto simp: less_eq_pyfloat_def less_pyfloat_def)
  show "x \<le> x"
    by (cases x) (auto simp: less_eq_pyfloat_def)
  show "x \<le> y \<Longrightarrow> y \<le> z \<Longrightarrow> x \<le> z"
    by (cases x; cases y; cases z) (auto simp: less_eq_pyfloat_def)
  show "x \<le> y \<Longrightarrow> y \<le> x \<Longrightarrow> x = y"
    by (cases x; cases y) (auto simp: less_eq_pyfloat_def)
  show "x \<le> y \<or> y \<le> x"
    by (cases x; cases y) (auto simp: less_eq_pyfloat_def)
qed

end

text \<open>Float addition: anything plus infinity is infinity.\<close>

fun fadd :: "pyfloat \<Rightarrow> pyfloat \<Rightarrow> pyfloat" where
  "fadd (Fin a) (Fin b) = Fin (a + b)"
| "fadd a b = PInf"

text \<open>\<open>math.log\<close> raises \<open>ValueError\<close> outside its domain.\<close>

definition py_log :: "real \<Rightarrow> error + real" where
  "py_log x = (if x \<le> 0 then Inl (ValueError ''math domain error'') else Inr (ln x))"

text \<open>
  A slice \<open>xs[a:b]\<close>: a negative bound counts from the end, and both bounds are clipped
  to the list.
\<close>

definition py_slice :: "int \<Rightarrow> int \<Rightarrow> 'a list \<Rightarrow> 'a list" where
  "py_slice a b xs =
     (let n = int (length xs);
          a' = (if a < 0 then max 0 (a + n) else min a n);
          b' = (if b < 0 then max 0 (b + n) else min b n)
      in drop (nat a') (take (nat b') xs))"

text \<open>\<open>xs[i]\<close> for a non-negative index: \<open>IndexError\<close> out of range.\<close>

definition py_index :: "'a list \<Rightarrow> nat \<Rightarrow> error + 'a" where
  "py_index xs i = (if i < length xs then Inr (xs ! i) else Inl IndexError)"

text \<open>
  \<open>min\<close> and \<open>max\<close> of a sequence raise \<open>ValueError\<close> on an empty one; \<open>min\<close> keeps the
  first of the smallest elements (a later element replaces the current one only when it
  is strictly smaller).
\<close>

fun py_min :: "'a::linorder list \<Rightarrow> error + 'a" where
  "py_min [] = Inl (ValueError ''min() arg is an empty sequence'')"
| "py_min (x # xs) = Inr (fold (\<lambda>y m. if y < m then y else m) xs x)"

fun py_max :: "'a::linorder list \<Rightarrow> error + 'a" where
  "py_max [] = Inl (ValueError ''max() arg is an empty sequence'')"
| "py_max (x # xs) = Inr (fold (\<lambda>y m. if m < y then y else m) xs x)"

text \<open>\<open>str.lower\<close>, on the ASCII letters.\<close>

definition lower_char :: "char \<Rightarrow> char" where
  "lower_char c =
     (case map_of (zip ''ABCDEFGHIJKLMNOPQRSTUVWXYZ'' ''abcdefghijklmnopqrstuvwxyz'') c of
        Some d \<Rightarrow> d
      | None \<Rightarrow> c)"

definition lower :: "string \<Rightarrow> string" where
  "lower s = map lower_char s"

section \<open>The text splitter\<close>

text \<open>
  \<open>TextSplitter\<close> holds the dictionary \<open>word_cost\<close> and \<open>max_len\<close>, the length of the
  longest word of the frequency list.
\<close>

record text_splitter =
  word_cost :: "string \<rightharpoonup> pyfloat"
  max_len :: nat

text \<open>
  The dictionary comprehension of the constructor: the pairs are stored in the order of the
  list, a later pair overwriting an earlier one with the same word. The cost of the word
  numbered \<open>number\<close> is \<open>log((number + 1) * log(len(words)))\<close>; either logarithm can raise.
\<close>

fun build_word_cost ::
  "(nat \<times> string) list \<Rightarrow> nat \<Rightarrow> (string \<rightharpoonup> pyfloat) \<Rightarrow> error + (string \<rightharpoonup> pyfloat)" where
  "build_word_cost [] n m = Inr m"
| "build_word_cost ((number, word) # rest) n m =
     (case py_log (real n) of
        Inl e \<Rightarrow> Inl e
      | Inr l \<Rightarrow>
          (case py_log (real (number + 1) * l) of
             Inl e \<Rightarrow> Inl e
           | Inr c \<Rightarrow> build_word_cost rest n (m(word \<mapsto> Fin c))))"

definition TextSplitter_init :: "pyval list option \<Rightarrow> error + text_splitter" where
  "TextSplitter_init words =
     (case words of
        None \<Rightarrow> Inl (ValueError ''The list of words is empty or None'')
      | Some ws \<Rightarrow>
          if ws = [] then Inl (ValueError ''The list of words is empty or None'')
          else if \<not> list_all is_str ws
            then Inl (TypeError ''The list of words has a non string type element'')
          else
            (case build_word_cost (enumerate 0 (map the_str ws)) (length ws) Map.empty of
               Inl e \<Rightarrow> Inl e
             | Inr wc \<Rightarrow>
                 (case py_max (map (\<lambda>x. length (the_str x)) ws) of
                    Inl e \<Rightarrow> Inl e
                  | Inr ml \<Rightarrow> Inr \<lparr>word_cost = wc, max_len = ml\<rparr>)))"

text \<open>
  \<open>best_match\<close> of \<open>split\<close>: the candidates are the entries of the cost array in the window
  of \<open>max_len\<close> positions before \<open>index\<close>, nearest first, so that candidate number
  \<open>match_length\<close> ends a token of \<open>match_length + 1\<close> characters. The result is the
  smallest pair (total cost, token length); pairs compare lexicographically.
\<close>

definition token_cost :: "text_splitter \<Rightarrow> string \<Rightarrow> pyfloat" where
  "token_cost sp s = (case word_cost sp (lower s) of Some c \<Rightarrow> c | None \<Rightarrow> PInf)"

definition best_match_costs :: "text_splitter \<Rightarrow> string \<Rightarrow> pyfloat list \<Rightarrow> nat \<Rightarrow> (pyfloat \<times> nat) list" where
  "best_match_costs sp text cost index =
     (let candidates =
            enumerate 0 (rev (py_slice (max 0 (int index - int (max_len sp))) (int index) cost))
      in map (\<lambda>(match_length, match_cost).
                (fadd match_cost
                   (token_cost sp (py_slice (int index - int match_length - 1) (int index) text)),
                 match_length + 1))
           candidates)"

definition best_match :: "text_splitter \<Rightarrow> string \<Rightarrow> pyfloat list \<Rightarrow> nat \<Rightarrow> error + (pyfloat \<times> nat)" where
  "best_match sp text cost index = py_min (best_match_costs sp text cost index)"

text \<open>The forward pass: \<open>for i in range(1, len(text) + 1)\<close>, appending to the cost array.\<close>

fun build_cost :: "text_splitter \<Rightarrow> string \<Rightarrow> nat list \<Rightarrow> pyfloat list \<Rightarrow> error + pyfloat list" where
  "build_cost sp text [] cost = Inr cost"
| "build_cost sp text (i # rest) cost =
     (case best_match sp text cost i of
        Inl e \<Rightarrow> Inl e
      | Inr (match_cost, match_length) \<Rightarrow> build_cost sp text rest (cost @ [match_cost]))"

text \<open>
  The backtracking pass: \<open>while i > 0\<close>, with the assertion that the recomputed cost is the
  recorded one. \<open>out\<close> collects the tokens last to first.
\<close>

function backtrack :: "text_splitter \<Rightarrow> string \<Rightarrow> pyfloat list \<Rightarrow> nat \<Rightarrow> string list \<Rightarrow> error + string list" where
  "backtrack sp text cost i out =
     (if i > 0 then
        (case best_match sp text cost i of
           Inl e \<Rightarrow> Inl e
         | Inr (match_cost, match_length) \<Rightarrow>
             (case py_index cost i of
                Inl e \<Rightarrow> Inl e
              | Inr recorded \<Rightarrow>
                  if match_cost \<noteq> recorded then Inl AssertionError
                  else backtrack sp text cost (i - match_length)
                         (out @ [py_slice (int i - int match_length) (int i) text])))
      else Inr out)"
  by pat_completeness auto
termination
proof (relation "measure (\<lambda>(sp, text, cost, i, out). i)")
  show "wf (measure (\<lambda>(sp, text, cost, i, out). i))" by simp
next
  fix sp :: text_splitter and s :: string and cost :: "pyfloat list" and i :: nat
    and out :: "string list" and x2 :: "pyfloat \<times> nat" and x y x2a
  assume "0 < i" and bm: "best_match sp s cost i = Inr x2" and "(x, y) = x2"
  have mem: "py_min xs = Inr m \<Longrightarrow> m \<in> set xs" for xs :: "(pyfloat \<times> nat) list" and m
  proof (cases xs)
    case Nil
    then show "py_min xs = Inr m \<Longrightarrow> m \<in> set xs" by simp
  next
    case (Cons z zs)
    have "fold (\<lambda>y m. if y < m then y else m) zs a \<in> insert a (set zs)" for a :: "pyfloat \<times> nat"
      by (induction zs arbitrary: a) auto
    from this [of z] Cons show "py_min xs = Inr m \<Longrightarrow> m \<in> set xs" by auto
  qed
  from bm \<open>(x, y) = x2\<close> have "(x, y) \<in> set (best_match_costs sp s cost i)"
    using mem [of "best_match_costs sp s cost i" "(x, y)"] by (simp add: best_match_def)
  then have "0 < y" by (auto simp: best_match_costs_def Let_def)
  with \<open>0 < i\<close> show "((sp, s, cost, i - y, out @ [py_slice (int i - int y) (int i) s]),
      (sp, s, cost, i, out)) \<in> measure (\<lambda>(sp, text, cost, i, out). i)"
    by simp
qed

declare backtrack.simps [simp del]

definition TextSplitter_split :: "text_splitter \<Rightarrow> pyval \<Rightarrow> error + string list" where
  "TextSplitter_split sp v =
     (case v of
        PStr text \<Rightarrow>
          (case build_cost sp text [1..<length text + 1] [Fin 0] of
             Inl e \<Rightarrow> Inl e
           | Inr cost \<Rightarrow>
               (case backtrack sp text cost (length text) [] of
                  Inl e \<Rightarrow> Inl e
                | Inr out \<Rightarrow> Inr (rev out)))
      | _ \<Rightarrow> Inl (TypeError ''Text must be str type''))"

section \<open>The word analyzer\<close>

text \<open>
  The attributes of \<open>WordAnalyzer\<close> that correcting a word reads. Three of them stand for
  code outside the analyzer's own module: \<open>tree_find\<close> is \<open>self.tree.find\<close>, the query of
  the BK-tree (the pairs of a distance and a word within the given distance);
  \<open>get_clear_word\<close> is the result of \<open>_get_clear_word\<close>, the search over leet
  substitutions, which only supplies the word to correct; \<open>divisors\<close> is the table from a
  length to its list of divisors. The theorems hold for every choice of the three.
\<close>

record analyzer =
  splitter :: text_splitter
  tree_find :: "string \<Rightarrow> int \<Rightarrow> (nat \<times> string) list"
  get_clear_word :: "string \<Rightarrow> error + string"
  divisors :: "nat \<rightharpoonup> nat list"
  default_cost :: pyfloat
  number_similar_words :: int
  distance :: int
  threshold :: int
  number_of_corrected_words :: int

text \<open>A list comprehension whose body can raise.\<close>

fun map_err :: "('a \<Rightarrow> error + 'b) \<Rightarrow> 'a list \<Rightarrow> error + 'b list" where
  "map_err f [] = Inr []"
| "map_err f (x # xs) =
     (case f x of
        Inl e \<Rightarrow> Inl e
      | Inr y \<Rightarrow> (case map_err f xs of Inl e \<Rightarrow> Inl e | Inr ys \<Rightarrow> Inr (y # ys)))"

text \<open>
  \<open>_get_total_cost\<close>: the sum, from \<open>0\<close>, of the costs of the parts of the text; a part
  is looked up as it is, and costs \<open>default_cost\<close> when it is not a word.
\<close>

definition get_total_cost :: "analyzer \<Rightarrow> string \<Rightarrow> error + pyfloat" where
  "get_total_cost a text =
     (case TextSplitter_split (splitter a) (PStr text) of
        Inl e \<Rightarrow> Inl e
      | Inr ws \<Rightarrow>
          Inr (foldl fadd (Fin 0)
                 (map (\<lambda>word. case word_cost (splitter a) word of
                                 Some c \<Rightarrow> c
                               | None \<Rightarrow> default_cost a) ws)))"

text \<open>
  \<open>_get_similar_words\<close>: the words found by the index, cheapest first, at most
  \<open>number_similar_words\<close> of them, or \<open>None\<close> when the index finds nothing.
\<close>

definition get_similar_words :: "analyzer \<Rightarrow> string \<Rightarrow> error + string list option" where
  "get_similar_words a word =
     (let found_words = tree_find a word (distance a)
      in case map_err (\<lambda>it. case get_total_cost a (snd it) of
                               Inl e \<Rightarrow> Inl e
                             | Inr c \<Rightarrow> Inr (c, snd it)) found_words of
           Inl e \<Rightarrow> Inl e
         | Inr arr \<Rightarrow>
             if arr \<noteq> []
             then Inr (Some (map snd (py_slice 0 (number_similar_words a) (sort arr))))
             else Inr None)"

text \<open>
  \<open>_detect_repeated_word\<close>: the first divisor \<open>d\<close> of the table for which every block
  \<open>word[start:start + d]\<close>, \<open>start\<close> in \<open>range(0, len(word), d)\<close>, is \<open>word[:d]\<close>.
\<close>

definition py_range_step :: "nat \<Rightarrow> nat \<Rightarrow> nat list" where
  "py_range_step stop step = map (\<lambda>k. k * step) [0..<(stop + step - 1) div step]"

fun repeated_part :: "string \<Rightarrow> nat list \<Rightarrow> error + string option" where
  "repeated_part word [] = Inr None"
| "repeated_part word (divisor # rest) =
     (if divisor = 0 then Inl (ValueError ''range() arg 3 must not be zero'')
      else
        let part = py_slice 0 (int divisor) word
        in if list_all (\<lambda>start. py_slice (int start) (int start + int divisor) word = part)
                (py_range_step (length word) divisor)
           then Inr (Some part)
           else repeated_part word rest)"

definition detect_repeated_word :: "analyzer \<Rightarrow> string \<Rightarrow> error + string option" where
  "detect_repeated_word a word =
     (if length word = 0 then Inr None
      else
        (case divisors a (length word) of
           None \<Rightarrow> Inr None
         | Some ds \<Rightarrow> if ds = [] then Inr None else repeated_part word ds))"

text \<open>
  \<open>replace_correcting_parts\<close>: each similar word replaces the parts \<open>i\<close> to \<open>j\<close>, and
  the full word is paired with its total cost.
\<close>

definition replace_correcting_parts ::
  "analyzer \<Rightarrow> string list \<Rightarrow> string list \<Rightarrow> int \<times> int \<Rightarrow> error + (pyfloat \<times> string) list" where
  "replace_correcting_parts a parts similar_words indices =
     (case indices of
        (i, j) \<Rightarrow>
          map_err (\<lambda>similar_word.
              let full_word =
                    concat (py_slice 0 i parts @ [similar_word] @
                            py_slice (j + 1) (int (length parts)) parts)
              in case get_total_cost a full_word of
                   Inl e \<Rightarrow> Inl e
                 | Inr cost \<Rightarrow> Inr (cost, full_word))
            similar_words)"

text \<open>
  The two loops of \<open>_get_correct_words\<close> over the ranges of parts:
  \<open>for j in range(i + minimum_parts, max_range + i + 1)\<close> inside
  \<open>for i in range(len(parts))\<close>, extending \<open>evaluated_words\<close>.
\<close>

fun splice_inner ::
  "analyzer \<Rightarrow> string list \<Rightarrow> nat \<Rightarrow> int list \<Rightarrow> (pyfloat \<times> string) list \<Rightarrow>
     error + (pyfloat \<times> string) list" where
  "splice_inner a parts i [] evaluated_words = Inr evaluated_words"
| "splice_inner a parts i (j # js) evaluated_words =
     (let spliced_word = concat (py_slice (int i) j parts)
      in case get_similar_words a spliced_word of
           Inl e \<Rightarrow> Inl e
         | Inr None \<Rightarrow> splice_inner a parts i js evaluated_words
         | Inr (Some similar_words) \<Rightarrow>
             if similar_words \<noteq> [] then
               (case replace_correcting_parts a parts similar_words (int i, j - 1) of
                  Inl e \<Rightarrow> Inl e
                | Inr full_words \<Rightarrow> splice_inner a parts i js (evaluated_words @ full_words))
             else splice_inner a parts i js evaluated_words)"

fun splice_outer ::
  "analyzer \<Rightarrow> string list \<Rightarrow> nat list \<Rightarrow> (pyfloat \<times> string) list \<Rightarrow>
     error + (pyfloat \<times> string) list" where
  "splice_outer a parts [] evaluated_words = Inr evaluated_words"
| "splice_outer a parts (i # rest) evaluated_words =
     (let max_range =
            (if threshold a \<le> int (length parts) - int i then threshold a
             else int (length parts) - int i)
      in case splice_inner a parts i [int i + 2..max_range + int i] evaluated_words of
           Inl e \<Rightarrow> Inl e
         | Inr evaluated_words' \<Rightarrow> splice_outer a parts rest evaluated_words')"

text \<open>
  The loop of the branch for fewer than two parts: the similar words of every part are
  collected in \<open>arr\<close>.
\<close>

fun collect_similar :: "analyzer \<Rightarrow> string list \<Rightarrow> string list \<Rightarrow> error + string list" where
  "collect_similar a [] arr = Inr arr"
| "collect_similar a (part # rest) arr =
     (case get_similar_words a part of
        Inl e \<Rightarrow> Inl e
      | Inr None \<Rightarrow> collect_similar a rest arr
      | Inr (Some similar) \<Rightarrow>
          collect_similar a rest (if similar \<noteq> [] then arr @ similar else arr))"

text \<open>
  The word that \<open>_get_correct_words\<close> corrects: \<open>clear_word\<close> when it is given and not
  empty, the result of \<open>_get_clear_word\<close> otherwise, replaced by its repeated part when
  one is detected.
\<close>

definition cleaned_word :: "analyzer \<Rightarrow> string \<Rightarrow> string option \<Rightarrow> error + string" where
  "cleaned_word a word clear_word =
     (case (case clear_word of
              Some cw \<Rightarrow> if cw \<noteq> [] then Inr cw else get_clear_word a word
            | None \<Rightarrow> get_clear_word a word) of
        Inl e \<Rightarrow> Inl e
      | Inr word' \<Rightarrow>
          (case detect_repeated_word a word' of
             Inl e \<Rightarrow> Inl e
           | Inr None \<Rightarrow> Inr word'
           | Inr (Some repeated_word) \<Rightarrow>
               Inr (if repeated_word \<noteq> [] then repeated_word else word')))"

text \<open>
  \<open>_get_correct_words\<close>. In the branch for fewer than two parts the source assigns
  \<open>sorted(evaluated_words)[:number_of_corrected_words]\<close> to \<open>arr\<close> after the loop that
  filled it; \<open>evaluated_words\<close> is still the empty list there, so the slice has no
  element to project.
\<close>

definition get_correct_words :: "analyzer \<Rightarrow> string \<Rightarrow> string option \<Rightarrow> error + string set" where
  "get_correct_words a word0 clear_word =
     (case cleaned_word a word0 clear_word of
        Inl e \<Rightarrow> Inl e
      | Inr word \<Rightarrow>
          (case TextSplitter_split (splitter a) (PStr word) of
             Inl e \<Rightarrow> Inl e
           | Inr parts \<Rightarrow>
               let evaluated_words = []
               in if length parts < 2 then
                    (case collect_similar a parts [] of
                       Inl e \<Rightarrow> Inl e
                     | Inr arr \<Rightarrow>
                         let arr = map snd (py_slice 0 (number_of_corrected_words a)
                                              (sort evaluated_words));
                             arr = (if word \<noteq> [] then arr @ [word] else arr)
                         in Inr (set arr))
                  else
                    (case splice_outer a parts [0..<length parts] evaluated_words of
                       Inl e \<Rightarrow> Inl e
                     | Inr evaluated_words \<Rightarrow>
                         let arr = py_slice 0 (number_of_corrected_words a) (sort evaluated_words);
                             arr = (if word \<noteq> [] then arr @ [(Fin 0, word)] else arr)
                         in Inr (set (map snd arr)))))"

section \<open>Measures used by the properties\<close>

text \<open>
  The summed cost of a token sequence, summed from \<open>0\<close> in the order of the tokens: the
  cost of a token is its entry of the dictionary, looked up in lower case, and infinity
  when it has none.
\<close>

definition total_cost :: "text_splitter \<Rightarrow> string list \<Rightarrow> pyfloat" where
  "total_cost sp ts = foldl fadd (Fin 0) (map (token_cost sp) ts)"

text \<open>
  The total cost of the candidate of \<open>best_match\<close> at \<open>index\<close> whose last token has
  \<open>l\<close> characters.
\<close>

definition candidate_cost :: "text_splitter \<Rightarrow> string \<Rightarrow> pyfloat list \<Rightarrow> nat \<Rightarrow> nat \<Rightarrow> pyfloat" where
  "candidate_cost sp text cost index l =
     fadd (cost ! (index - l)) (token_cost sp (drop (index - l) (take index text)))"

text \<open>
  The invariant of the cost array: it starts with \<open>0\<close>, and every later entry is the cost
  that \<open>best_match\<close> computes at its position.
\<close>

definition cost_ok :: "text_splitter \<Rightarrow> string \<Rightarrow> pyfloat list \<Rightarrow> bool" where
  "cost_ok sp text cost =
     (cost \<noteq> [] \<and> cost ! 0 = Fin 0 \<and>
      (\<forall>i. 0 < i \<and> i < length cost \<longrightarrow> (\<exists>l. best_match sp text cost i = Inr (cost ! i, l))))"

text \<open>The cost that the constructor stores for the word numbered \<open>i\<close> of \<open>n\<close> words.\<close>

definition zipf_cost :: "nat \<Rightarrow> nat \<Rightarrow> pyfloat" where
  "zipf_cost n i = Fin (ln (real (i + 1) * ln (real n)))"

text \<open>One step of the dictionary comprehension, for a word of the list that has its cost.\<close>

definition store_cost :: "nat \<Rightarrow> nat \<times> string \<Rightarrow> (string \<rightharpoonup> pyfloat) \<Rightarrow> (string \<rightharpoonup> pyfloat)" where
  "store_cost n p m = m(snd p \<mapsto> zipf_cost n (fst p))"

text \<open>
  Example inputs. \<open>tie_splitter\<close> is the splitter that the constructor builds from the
  frequency list \<open>["xy", "z"]\<close>; \<open>dup_splitter\<close> the one it builds from
  \<open>["a", "b", "a"]\<close>, where a word occurs twice.
\<close>

definition tie_splitter :: text_splitter where
  "tie_splitter =
     \<lparr>word_cost = [''xy'' \<mapsto> Fin (ln (ln 2)), ''z'' \<mapsto> Fin (ln (2 * ln 2))], max_len = 2\<rparr>"

definition dup_splitter :: text_splitter where
  "dup_splitter =
     \<lparr>word_cost = [''a'' \<mapsto> Fin (ln (3 * ln 3)), ''b'' \<mapsto> Fin (ln (2 * ln 3))], max_len = 1\<rparr>"

text \<open>
  \<open>the_she_analyzer\<close> is an analyzer over the frequency list \<open>["the", "she"]\<close>, with
  the default configuration but two corrected words: its splitter is the one the constructor
  builds from the list, its index answers the query for \<open>"the"\<close> at distance \<open>1\<close> with
  both words (the examples make no other query that finds a word), its cleaning leaves a
  word as it is, and its table of divisors lists the proper divisors of the lengths up to
  \<open>6\<close>.
\<close>

definition the_she_splitter :: text_splitter where
  "the_she_splitter =
     \<lparr>word_cost = [''the'' \<mapsto> Fin (ln (ln 2)), ''she'' \<mapsto> Fin (ln (2 * ln 2))], max_len = 3\<rparr>"

definition the_she_analyzer :: analyzer where
  "the_she_analyzer =
     \<lparr>splitter = the_she_splitter,
      tree_find = (\<lambda>word d. if word = ''the'' \<and> 1 \<le> d then [(0, ''the''), (1, ''she'')] else []),
      get_clear_word = (\<lambda>word. Inr word),
      divisors = [1 \<mapsto> [], 2 \<mapsto> [1], 3 \<mapsto> [1], 4 \<mapsto> [1, 2], 5 \<mapsto> [1], 6 \<mapsto> [1, 2, 3]],
      default_cost = Fin 1000,
      number_similar_words = 4,
      distance = 1,
      threshold = 2,
      number_of_corrected_words = 2\<rparr>"

text \<open>
  \<open>abcd_analyzer n\<close> is an analyzer over the frequency list
  \<open>["ab", "cd", "abcx", "abcy"]\<close> that returns \<open>n\<close> corrected words: its splitter is the
  one the constructor builds from the list, and its index answers the query for \<open>"abcd"\<close>
  at distance \<open>1\<close> with the two words of the list one substitution away.
\<close>

definition abcd_splitter :: text_splitter where
  "abcd_splitter =
     \<lparr>word_cost = [''ab'' \<mapsto> Fin (ln (ln 4)), ''cd'' \<mapsto> Fin (ln (2 * ln 4)),
                   ''abcx'' \<mapsto> Fin (ln (3 * ln 4)), ''abcy'' \<mapsto> Fin (ln (4 * ln 4))],
      max_len = 4\<rparr>"

definition abcd_analyzer :: "int \<Rightarrow> analyzer" where
  "abcd_analyzer n =
     \<lparr>splitter = abcd_splitter,
      tree_find = (\<lambda>word d. if word = ''abcd'' \<and> 1 \<le> d then [(1, ''abcx''), (1, ''abcy'')] else []),
      get_clear_word = (\<lambda>word. Inr word),
      divisors = [1 \<mapsto> [], 2 \<mapsto> [1], 3 \<mapsto> [1], 4 \<mapsto> [1, 2]],
      default_cost = Fin 1000,
      number_similar_words = 4,
      distance = 1,
      threshold = 2,
      number_of_corrected_words = n\<rparr>"

section \<open>Slices, minima and float arithmetic\<close>

lemma py_slice_nat: "py_slice (int a) (int b) xs = drop a (take b xs)"
proof -
  have "drop (min a (length xs)) (take (min b (length xs)) xs) = drop a (take b xs)"
    by (cases "a \<le> length xs") (auto simp: min_def)
  moreover have "nat (min (int a) (int (length xs))) = min a (length xs)"
    and "nat (min (int b) (int (length xs))) = min b (length xs)"
    by linarith+
  ultimately show ?thesis
    by (simp add: py_slice_def Let_def)
qed

lemma py_min_Min: "xs \<noteq> [] \<Longrightarrow> py_min xs = Inr (Min (set xs))"
proof (cases xs)
  case Nil
  then show "xs \<noteq> [] \<Longrightarrow> py_min xs = Inr (Min (set xs))" by simp
next
  case (Cons x ys)
  have "(\<lambda>y m. if y < m then y else m) = (min :: 'a \<Rightarrow> 'a \<Rightarrow> 'a)"
    by (auto simp: fun_eq_iff min_def)
  with Cons show "xs \<noteq> [] \<Longrightarrow> py_min xs = Inr (Min (set xs))"
    using Min.set_eq_fold [of x ys] by simp
qed

lemma py_max_Max: "xs \<noteq> [] \<Longrightarrow> py_max xs = Inr (Max (set xs))"
proof (cases xs)
  case Nil
  then show "xs \<noteq> [] \<Longrightarrow> py_max xs = Inr (Max (set xs))" by simp
next
  case (Cons x ys)
  have "(\<lambda>y m. if m < y then y else m) = (max :: 'a \<Rightarrow> 'a \<Rightarrow> 'a)"
    by (auto simp: fun_eq_iff max_def)
  with Cons show "xs \<noteq> [] \<Longrightarrow> py_max xs = Inr (Max (set xs))"
    using Max.set_eq_fold [of x ys] by simp
qed

lemma le_PInf [simp]: "x \<le> PInf"
  by (simp add: less_eq_pyfloat_def)

lemma fadd_PInf [simp]: "fadd x PInf = PInf"
  by (cases x) simp_all

lemma fadd_mono: "a \<le> b \<Longrightarrow> fadd a x \<le> fadd b x"
  by (cases a; cases b; cases x) (simp_all add: less_eq_pyfloat_def)

lemma length_lower [simp]: "length (lower s) = length s"
  by (simp add: lower_def)

lemma total_cost_Nil [simp]: "total_cost sp [] = Fin 0"
  by (simp add: total_cost_def)

lemma total_cost_snoc [simp]:
  "total_cost sp (ts @ [t]) = fadd (total_cost sp ts) (token_cost sp t)"
  by (simp add: total_cost_def)

section \<open>What \<open>best_match\<close> computes\<close>

lemma best_match_costs_eq:
  assumes "i \<le> length cost"
  shows "best_match_costs sp text cost i =
    map (\<lambda>k. (fadd (cost ! (i - Suc k)) (token_cost sp (drop (i - Suc k) (take i text))), Suc k))
      [0..<min i (max_len sp)]"
proof -
  let ?w = "min i (max_len sp)"
  let ?xs = "rev (drop (i - max_len sp) (take i cost))"
  have s1: "py_slice (max 0 (int i - int (max_len sp))) (int i) cost
      = drop (i - max_len sp) (take i cost)"
  proof -
    have "max 0 (int i - int (max_len sp)) = int (i - max_len sp)" by linarith
    then show ?thesis by (simp only: py_slice_nat)
  qed
  have len: "length ?xs = ?w" using assms by auto
  have nth: "?xs ! k = cost ! (i - Suc k)" if "k < ?w" for k
  proof -
    have "?xs ! k = drop (i - max_len sp) (take i cost) ! (?w - Suc k)"
      using that len by (simp add: rev_nth)
    also have "\<dots> = take i cost ! ((i - max_len sp) + (?w - Suc k))"
      using that assms by simp
    also have "(i - max_len sp) + (?w - Suc k) = i - Suc k" using that by linarith
    finally show ?thesis using that by simp
  qed
  have s2: "py_slice (int i - int k - 1) (int i) text = drop (i - Suc k) (take i text)"
    if "k < ?w" for k
  proof -
    have "int i - int k - 1 = int (i - Suc k)" using that by linarith
    then show ?thesis by (simp only: py_slice_nat)
  qed
  show ?thesis
    unfolding best_match_costs_def Let_def s1
    by (rule nth_equalityI) (use len in \<open>auto simp: nth_enumerate_eq nth s2\<close>)
qed

lemma best_match_costs_cand:
  assumes "i \<le> length cost"
  shows "best_match_costs sp text cost i =
    map (\<lambda>l. (candidate_cost sp text cost i l, l)) [1..<Suc (min i (max_len sp))]"
proof -
  have "[1..<Suc (min i (max_len sp))] = map Suc [0..<min i (max_len sp)]"
    by (simp add: map_Suc_upt)
  then show ?thesis
    using best_match_costs_eq [OF assms, of sp "text"]
    by (simp add: candidate_cost_def comp_def)
qed

lemma best_match_props:
  assumes "i \<le> length cost" and "best_match sp text cost i = Inr (c, l)"
  shows "1 \<le> l" and "l \<le> i" and "l \<le> max_len sp"
    and "c = candidate_cost sp text cost i l"
    and "\<And>l'. 1 \<le> l' \<Longrightarrow> l' \<le> i \<Longrightarrow> l' \<le> max_len sp \<Longrightarrow>
           (c, l) \<le> (candidate_cost sp text cost i l', l')"
proof -
  let ?cs = "best_match_costs sp text cost i"
  have eq: "?cs = map (\<lambda>l. (candidate_cost sp text cost i l, l)) [1..<Suc (min i (max_len sp))]"
    by (rule best_match_costs_cand [OF assms(1)])
  have ne: "?cs \<noteq> []" using assms(2) by (auto simp: best_match_def)
  then have m: "(c, l) = Min (set ?cs)"
    using assms(2) by (simp add: best_match_def py_min_Min)
  then have "(c, l) \<in> set ?cs" using ne by (metis Min_in List.finite_set set_empty)
  then show "1 \<le> l" and "l \<le> i" and "l \<le> max_len sp"
    and "c = candidate_cost sp text cost i l"
    unfolding eq by auto
  fix l' assume "1 \<le> l'" "l' \<le> i" "l' \<le> max_len sp"
  then have "l' \<in> set [1..<Suc (min i (max_len sp))]" by auto
  then have "(candidate_cost sp text cost i l', l') \<in> set ?cs"
    unfolding eq set_map by (rule image_eqI [where x = l', OF refl])
  then show "(c, l) \<le> (candidate_cost sp text cost i l', l')"
    unfolding m by simp
qed

lemma best_match_returns:
  assumes "i \<le> length cost" and "0 < i" and "0 < max_len sp"
  shows "\<exists>c l. best_match sp text cost i = Inr (c, l)"
proof -
  have "best_match_costs sp text cost i \<noteq> []"
    using assms by (simp add: best_match_costs_cand)
  then show ?thesis
    unfolding best_match_def by (cases "best_match_costs sp text cost i") auto
qed

lemma best_match_no_window:
  assumes "max_len sp = 0"
  shows "best_match sp text cost i = Inl (ValueError ''min() arg is an empty sequence'')"
proof -
  have "py_slice (max 0 (int i - int (max_len sp))) (int i) cost = []"
    using assms by (simp add: py_slice_nat)
  then show ?thesis
    by (simp add: best_match_def best_match_costs_def)
qed

lemma best_match_append:
  assumes "i \<le> length cost"
  shows "best_match sp text (cost @ ys) i = best_match sp text cost i"
proof -
  have "candidate_cost sp text (cost @ ys) i l = candidate_cost sp text cost i l"
    if "l \<in> set [1..<Suc (min i (max_len sp))]" for l
    using that assms by (auto simp: candidate_cost_def nth_append)
  then have "best_match_costs sp text (cost @ ys) i = best_match_costs sp text cost i"
    using assms by (simp add: best_match_costs_cand)
  then show ?thesis by (simp add: best_match_def)
qed

section \<open>The two passes of \<open>split\<close>\<close>

lemma cost_ok_init: "cost_ok sp text [Fin 0]"
  by (simp add: cost_ok_def)

lemma cost_ok_step:
  assumes ok: "cost_ok sp text cost" and bm: "best_match sp text cost (length cost) = Inr (c, l)"
  shows "cost_ok sp text (cost @ [c])"
proof -
  from ok have ne: "cost \<noteq> []" and z: "cost ! 0 = Fin 0"
    and old: "\<And>i. 0 < i \<Longrightarrow> i < length cost \<Longrightarrow> \<exists>l. best_match sp text cost i = Inr (cost ! i, l)"
    by (auto simp: cost_ok_def)
  have "\<exists>l'. best_match sp text (cost @ [c]) i = Inr ((cost @ [c]) ! i, l')"
    if "0 < i" and "i < length (cost @ [c])" for i
  proof (cases "i < length cost")
    case True
    then show ?thesis
      using old [OF that(1) True] by (simp add: best_match_append nth_append)
  next
    case False
    with that have "i = length cost" by simp
    then show ?thesis using bm by (simp add: best_match_append)
  qed
  then show ?thesis
    using ne z unfolding cost_ok_def by (simp add: nth_append)
qed

lemma build_cost_ok:
  assumes "cost_ok sp text cost" and "length cost = k" and "0 < max_len sp"
  shows "\<exists>c'. build_cost sp text [k..<k + m] cost = Inr c' \<and> cost_ok sp text c' \<and> length c' = k + m"
  using assms
proof (induction m arbitrary: k cost)
  case 0
  then show ?case by simp
next
  case (Suc m)
  from Suc.prems(1) have "cost \<noteq> []" by (simp add: cost_ok_def)
  with Suc.prems(2) have kpos: "0 < k" by auto
  obtain c l where bm: "best_match sp text cost k = Inr (c, l)"
    using best_match_returns [of k cost sp "text"] Suc.prems kpos by auto
  have ok': "cost_ok sp text (cost @ [c])"
    using cost_ok_step [OF Suc.prems(1)] bm Suc.prems(2) by simp
  have len': "length (cost @ [c]) = Suc k" using Suc.prems(2) by simp
  obtain c' where "build_cost sp text [Suc k..<Suc k + m] (cost @ [c]) = Inr c'"
    and "cost_ok sp text c'" and "length c' = Suc k + m"
    using Suc.IH [OF ok' len' Suc.prems(3)] by blast
  moreover have "[k..<k + Suc m] = k # [Suc k..<Suc k + m]"
    by (simp add: upt_rec)
  ultimately show ?case using bm by simp
qed

lemma build_cost_split:
  assumes "0 < max_len sp"
  shows "\<exists>c. build_cost sp text [1..<length text + 1] [Fin 0] = Inr c \<and> cost_ok sp text c \<and>
    length c = length text + 1"
  using build_cost_ok [OF cost_ok_init _ assms, of 1 "text" "length text"] by simp

lemma backtrack_ok:
  assumes ok: "cost_ok sp text c"
  shows "i < length c \<Longrightarrow> i \<le> length text \<Longrightarrow>
    \<exists>ts. backtrack sp text c i out = Inr (out @ ts) \<and> concat (rev ts) = take i text \<and>
      (\<forall>t\<in>set ts. t \<noteq> [] \<and> length t \<le> max_len sp) \<and> total_cost sp (rev ts) = c ! i"
proof (induction i arbitrary: out rule: less_induct)
  case (less i)
  show ?case
  proof (cases "i = 0")
    case True
    moreover have "c ! 0 = Fin 0" using ok by (simp add: cost_ok_def)
    ultimately show ?thesis by (simp add: backtrack.simps [of sp "text" c 0])
  next
    case False
    then have ipos: "0 < i" by simp
    obtain l where bm: "best_match sp text c i = Inr (c ! i, l)"
      using ok ipos less.prems(1) by (auto simp: cost_ok_def)
    have ile: "i \<le> length c" using less.prems(1) by simp
    note p = best_match_props [OF ile bm]
    let ?tok = "drop (i - l) (take i text)"
    have tok: "py_slice (int i - int l) (int i) text = ?tok"
    proof -
      have "int i - int l = int (i - l)" using p(2) by linarith
      then show ?thesis by (simp only: py_slice_nat)
    qed
    have step: "backtrack sp text c i out = backtrack sp text c (i - l) (out @ [?tok])"
      using ipos bm less.prems(1)
      by (simp add: backtrack.simps [of sp "text" c i out] py_index_def tok)
    have "i - l < i" using p(1) ipos by linarith
    moreover have "i - l < length c" using less.prems(1) by linarith
    moreover have "i - l \<le> length text" using less.prems(2) by linarith
    ultimately obtain ts where r: "backtrack sp text c (i - l) (out @ [?tok]) = Inr ((out @ [?tok]) @ ts)"
      and cc: "concat (rev ts) = take (i - l) text"
      and tk: "\<forall>t\<in>set ts. t \<noteq> [] \<and> length t \<le> max_len sp"
      and tc: "total_cost sp (rev ts) = c ! (i - l)"
      using less.IH [of "i - l" "out @ [?tok]"] by blast
    have lt: "length ?tok = l" using p(2) less.prems(2) by simp
    have "take (i - l) text = take (i - l) (take i text)" by (simp add: min_def)
    then have c2: "concat (rev (?tok # ts)) = take i text"
      using cc by (simp only: rev.simps concat_append concat.simps append_Nil2 append_take_drop_id)
    have t2: "total_cost sp (rev (?tok # ts)) = c ! i"
      using tc p(4) by (simp add: candidate_cost_def)
    have k2: "\<forall>t\<in>set (?tok # ts). t \<noteq> [] \<and> length t \<le> max_len sp"
      using tk lt p(1) p(3) by (auto simp del: length_drop length_take)
    have "backtrack sp text c i out = Inr (out @ (?tok # ts))"
      using step r by simp
    with c2 t2 k2 show ?thesis by blast
  qed
qed

lemma cost_ok_optimal:
  assumes ok: "cost_ok sp text c"
    and wf: "\<And>w. w \<in> dom (word_cost sp) \<Longrightarrow> length w \<le> max_len sp"
  shows "i < length c \<Longrightarrow> i \<le> length text \<Longrightarrow> concat alt = take i text \<Longrightarrow> [] \<notin> set alt \<Longrightarrow>
    c ! i \<le> total_cost sp alt"
proof (induction alt arbitrary: i rule: rev_induct)
  case Nil
  then have "i = 0" by auto
  then show ?case using ok by (simp add: cost_ok_def)
next
  case (snoc t alt)
  let ?l = "length t"
  from snoc.prems(4) have tne: "t \<noteq> []" by auto
  have cat: "concat alt @ t = take i text" using snoc.prems(3) by simp
  then have "length (concat alt) + ?l = i" using snoc.prems(2)
    by (metis length_append length_take min.absorb2)
  then have li: "?l \<le> i" and la: "length (concat alt) = i - ?l" by linarith+
  have alt_eq: "concat alt = take (i - ?l) text"
  proof -
    have "concat alt = take (i - ?l) (concat alt @ t)" using la by simp
    also have "\<dots> = take (i - ?l) (take i text)" using cat by simp
    finally show ?thesis by (simp add: min_def)
  qed
  have t_eq: "t = drop (i - ?l) (take i text)"
  proof -
    have "t = drop (i - ?l) (concat alt @ t)" using la by simp
    then show ?thesis using cat by simp
  qed
  show ?case
  proof (cases "?l \<le> max_len sp")
    case False
    then have "lower t \<notin> dom (word_cost sp)" using wf [of "lower t"] by auto
    then have "token_cost sp t = PInf" by (auto simp: token_cost_def split: option.splits)
    then show ?thesis by simp
  next
    case True
    have ipos: "0 < i" using tne li by (cases t) auto
    obtain l0 where bm: "best_match sp text c i = Inr (c ! i, l0)"
      using ok ipos snoc.prems(1) by (auto simp: cost_ok_def)
    have ile: "i \<le> length c" using snoc.prems(1) by simp
    have "1 \<le> ?l" using tne by (cases t) auto
    then have "(c ! i, l0) \<le> (candidate_cost sp text c i ?l, ?l)"
      using best_match_props(5) [OF ile bm _ li True] by simp
    then have "c ! i \<le> candidate_cost sp text c i ?l"
      by (auto simp: less_eq_prod_def)
    also have "\<dots> = fadd (c ! (i - ?l)) (token_cost sp t)"
      using t_eq by (simp add: candidate_cost_def)
    also have "\<dots> \<le> fadd (total_cost sp alt) (token_cost sp t)"
    proof (rule fadd_mono)
      have "i - ?l < length c" using snoc.prems(1) by linarith
      moreover have "i - ?l \<le> length text" using snoc.prems(2) by linarith
      moreover have "[] \<notin> set alt" using snoc.prems(4) by simp
      ultimately show "c ! (i - ?l) \<le> total_cost sp alt"
        using snoc.IH [of "i - ?l"] alt_eq by blast
    qed
    finally show ?thesis by simp
  qed
qed

text \<open>
  With a positive \<open>max_len\<close>, \<open>split\<close> returns: the forward pass builds a cost array that
  satisfies the invariant, and backtracking from its last position gives the tokens.
\<close>

lemma split_returns:
  assumes "0 < max_len sp"
  shows "\<exists>c ts. build_cost sp text [1..<length text + 1] [Fin 0] = Inr c \<and> cost_ok sp text c \<and>
    length c = length text + 1 \<and> TextSplitter_split sp (PStr text) = Inr ts \<and>
    concat ts = text \<and> (\<forall>t\<in>set ts. t \<noteq> [] \<and> length t \<le> max_len sp) \<and>
    total_cost sp ts = c ! length text"
proof -
  obtain c where b: "build_cost sp text [1..<length text + 1] [Fin 0] = Inr c"
    and ok: "cost_ok sp text c" and len: "length c = length text + 1"
    using build_cost_split [OF assms] by blast
  obtain ts where bt: "backtrack sp text c (length text) [] = Inr ([] @ ts)"
    and "concat (rev ts) = take (length text) text"
    and "\<forall>t\<in>set ts. t \<noteq> [] \<and> length t \<le> max_len sp"
    and "total_cost sp (rev ts) = c ! length text"
    using backtrack_ok [OF ok, of "length text" "[]"] len by auto
  moreover have "TextSplitter_split sp (PStr text) = Inr (rev ts)"
    using b bt by (simp add: TextSplitter_split_def)
  ultimately show ?thesis using b ok len by auto
qed

lemma split_empty: "TextSplitter_split sp (PStr []) = Inr []"
  by (simp add: TextSplitter_split_def backtrack.simps [of sp "[]" "[Fin 0]" 0])

lemma split_no_window:
  assumes "max_len sp = 0" and "text \<noteq> []"
  shows "TextSplitter_split sp (PStr text) = Inl (ValueError ''min() arg is an empty sequence'')"
proof -
  have r: "[1..<length text + 1] = 1 # [Suc 1..<length text + 1]"
    by (rule upt_conv_Cons) (use assms(2) in simp)
  have "build_cost sp text [1..<length text + 1] [Fin 0]
      = Inl (ValueError ''min() arg is an empty sequence'')"
    unfolding r by (simp add: best_match_no_window [OF assms(1)])
  then show ?thesis
    unfolding TextSplitter_split_def by (simp only: pyval.case sum.case)
qed

section \<open>The constructor\<close>

lemma store_cost_pair [simp]: "store_cost n (i, w) m = m(w \<mapsto> zipf_cost n i)"
  by (simp add: store_cost_def)

lemma build_word_cost_ok:
  assumes "2 \<le> n"
  shows "build_word_cost ps n m = Inr (fold (store_cost n) ps m)"
proof (induction ps arbitrary: m)
  case Nil
  show ?case by simp
next
  case (Cons p ps)
  obtain i w where p: "p = (i, w)" by (cases p)
  have "0 < ln (real n)" using assms by simp
  then have "0 < real (i + 1) * ln (real n)" by simp
  then have l2: "py_log (real (i + 1) * ln (real n)) = Inr (ln (real (i + 1) * ln (real n)))"
    by (simp add: py_log_def)
  have l1: "py_log (real n) = Inr (ln (real n))"
    using assms by (simp add: py_log_def)
  have step: "fold (store_cost n) (p # ps) m = fold (store_cost n) ps (m(w \<mapsto> zipf_cost n i))"
    unfolding p by (simp only: fold_simps store_cost_pair)
  have "build_word_cost (p # ps) n m = build_word_cost ps n (m(w \<mapsto> zipf_cost n i))"
    unfolding p zipf_cost_def by (simp only: build_word_cost.simps l1 l2 sum.case)
  then show ?case unfolding step by (simp only: Cons.IH)
qed

lemma build_word_cost_single:
  assumes "ps \<noteq> []"
  shows "build_word_cost ps 1 m = Inl (ValueError ''math domain error'')"
proof (cases ps)
  case Nil
  with assms show ?thesis by simp
next
  case (Cons p rest)
  obtain i w where "p = (i, w)" by (cases p)
  with Cons show ?thesis by (simp add: py_log_def)
qed

lemma fold_cost_notin:
  "w \<notin> snd ` set ps \<Longrightarrow> fold (store_cost n) ps m w = m w"
  by (induction ps arbitrary: m) auto

lemma fold_cost_dom:
  "dom (fold (store_cost n) ps m) = dom m \<union> snd ` set ps"
  by (induction ps arbitrary: m) auto

lemma fold_cost_distinct:
  "distinct (map snd ps) \<Longrightarrow> (i, w) \<in> set ps \<Longrightarrow>
    fold (store_cost n) ps m w = Some (zipf_cost n i)"
proof (induction ps arbitrary: m)
  case Nil
  then show ?case by simp
next
  case (Cons p ps)
  obtain j v where p: "p = (j, v)" by (cases p)
  show ?case
  proof (cases "(i, w) = p")
    case True
    then have "w \<notin> snd ` set ps" using Cons.prems(1) p by auto
    then show ?thesis using True p by (auto simp: fold_cost_notin)
  next
    case False
    then have "(i, w) \<in> set ps" using Cons.prems(2) by simp
    moreover have "distinct (map snd ps)" using Cons.prems(1) by simp
    ultimately show ?thesis using Cons.IH p by simp
  qed
qed

lemma init_returns:
  assumes "2 \<le> length ws" and "list_all is_str ws"
  shows "TextSplitter_init (Some ws) =
    Inr \<lparr>word_cost = fold (store_cost (length ws)) (enumerate 0 (map the_str ws)) Map.empty,
         max_len = Max (set (map (\<lambda>x. length (the_str x)) ws))\<rparr>"
proof -
  have ne: "ws \<noteq> []" using assms(1) by auto
  then have "py_max (map (\<lambda>x. length (the_str x)) ws) =
      Inr (Max (set (map (\<lambda>x. length (the_str x)) ws)))"
    by (simp add: py_max_Max)
  then show ?thesis
    using ne assms(2) build_word_cost_ok [OF assms(1)]
    by (simp add: TextSplitter_init_def)
qed

lemma init_single:
  assumes "is_str w"
  shows "TextSplitter_init (Some [w]) = Inl (ValueError ''math domain error'')"
  using assms build_word_cost_single [of "enumerate 0 [the_str w]"]
  by (simp add: TextSplitter_init_def)

lemma init_Inr_length:
  assumes "TextSplitter_init (Some ws) = Inr sp"
  shows "2 \<le> length ws" and "list_all is_str ws"
proof -
  from assms have ne: "ws \<noteq> []" and str: "list_all is_str ws"
    by (auto simp: TextSplitter_init_def split: if_splits)
  show "list_all is_str ws" by (rule str)
  show "2 \<le> length ws"
  proof (rule ccontr)
    assume "\<not> 2 \<le> length ws"
    with ne obtain w where w: "ws = [w]" by (cases ws) (auto simp: Suc_le_eq)
    with str have "is_str w" by simp
    from init_single [OF this] assms w show False by simp
  qed
qed

lemma init_Inr:
  assumes "TextSplitter_init (Some ws) = Inr sp"
  shows "word_cost sp = fold (store_cost (length ws)) (enumerate 0 (map the_str ws)) Map.empty"
    and "max_len sp = Max (set (map (\<lambda>x. length (the_str x)) ws))"
  using init_returns [OF init_Inr_length [OF assms]] assms by auto

lemma init_wf:
  assumes "TextSplitter_init (Some ws) = Inr sp" and "w \<in> dom (word_cost sp)"
  shows "length w \<le> max_len sp"
proof -
  have "dom (word_cost sp) = snd ` set (enumerate 0 (map the_str ws))"
    by (simp add: init_Inr(1) [OF assms(1)] fold_cost_dom)
  also have "\<dots> = the_str ` set ws" by (metis map_snd_enumerate set_map)
  finally obtain x where "x \<in> set ws" and "w = the_str x" using assms(2) by auto
  then have "length w \<in> set (map (\<lambda>x. length (the_str x)) ws)" by auto
  then show ?thesis
    unfolding init_Inr(2) [OF assms(1)] by (intro Max_ge) auto
qed

lemma init_lookup:
  assumes "TextSplitter_init (Some ws) = Inr sp" and "distinct (map the_str ws)"
    and "i < length ws"
  shows "word_cost sp (the_str (ws ! i)) = Some (zipf_cost (length ws) i)"
proof -
  let ?ps = "enumerate 0 (map the_str ws)"
  have "(i, the_str (ws ! i)) \<in> set ?ps"
    using assms(3) by (auto simp: in_set_enumerate_eq)
  moreover have "distinct (map snd ?ps)" using assms(2) by simp
  ultimately show ?thesis
    unfolding init_Inr(1) [OF assms(1)] by (rule fold_cost_distinct [rotated])
qed

lemma zipf_cost_mono:
  assumes "2 \<le> n" and "i \<le> j"
  shows "zipf_cost n i \<le> zipf_cost n j"
proof -
  have l: "0 < ln (real n)" using assms(1) by simp
  then have "0 < real (i + 1) * ln (real n)" by simp
  moreover have "real (i + 1) * ln (real n) \<le> real (j + 1) * ln (real n)"
    using l assms(2) by simp
  ultimately have "ln (real (i + 1) * ln (real n)) \<le> ln (real (j + 1) * ln (real n))"
    by (simp only: ln_mono)
  then show ?thesis by (simp add: zipf_cost_def less_eq_pyfloat_def)
qed

section \<open>Evaluating the examples\<close>

lemmas split_eval =
  TextSplitter_split_def best_match_def best_match_costs_def py_slice_def token_cost_def
  lower_def lower_char_def py_index_def backtrack.simps less_eq_pyfloat_def less_pyfloat_def
  Let_def upt_rec less_prod_def less_eq_prod_def

lemma tie_splitter_init:
  "TextSplitter_init (Some [PStr ''xy'', PStr ''z'']) = Inr tie_splitter"
  by (simp add: TextSplitter_init_def tie_splitter_def py_log_def enumerate_eq_zip upt_rec)

lemma tie_splitter_split_xyz:
  "TextSplitter_split tie_splitter (PStr ''xyz'') = Inr [''xy'', ''z'']"
  by (simp add: tie_splitter_def split_eval)

lemma tie_splitter_split_ab:
  "TextSplitter_split tie_splitter (PStr ''ab'') = Inr [''a'', ''b'']"
  by (simp add: tie_splitter_def split_eval)

lemma tie_splitter_build_ab:
  "build_cost tie_splitter ''ab'' [1..<length ''ab'' + 1] [Fin 0] = Inr [Fin 0, PInf, PInf]"
  by (simp add: tie_splitter_def split_eval)

lemma tie_splitter_best_match:
  "best_match tie_splitter ''ab'' [Fin 0, PInf] 2 = Inr (PInf, 1)"
  by (simp add: tie_splitter_def split_eval)

lemma tie_splitter_candidates:
  "candidate_cost tie_splitter ''ab'' [Fin 0, PInf] 2 1 = PInf"
  "candidate_cost tie_splitter ''ab'' [Fin 0, PInf] 2 2 = PInf"
  by (simp_all add: tie_splitter_def candidate_cost_def token_cost_def lower_def lower_char_def)

section \<open>Properties of \<open>split\<close>\<close>

text \<open>
  C2. For every string \<open>text\<close>, the tokens that \<open>split\<close> returns, concatenated in order,
  are \<open>text\<close>. \<open>split\<close> returns for every string, except that it raises the
  \<open>ValueError\<close> of \<open>min\<close> on a non-empty text when \<open>max_len\<close> is \<open>0\<close> (every word of the
  frequency list is the empty string).
\<close>

theorem split_concat:
  "(\<exists>ts. TextSplitter_split sp (PStr text) = Inr ts \<and> concat ts = text) \<or>
   (max_len sp = 0 \<and> text \<noteq> [] \<and>
    TextSplitter_split sp (PStr text) = Inl (ValueError ''min() arg is an empty sequence''))"
proof (cases "0 < max_len sp")
  case True
  from split_returns [OF this, of "text"] show ?thesis by blast
next
  case False
  then have z: "max_len sp = 0" by simp
  show ?thesis
  proof (cases "text = []")
    case True
    then show ?thesis by (simp add: split_empty)
  next
    case False
    with z split_no_window [OF z False] show ?thesis by simp
  qed
qed

text \<open>
  C1. Over a splitter built from a frequency list, the token sequence that \<open>split\<close>
  returns has the least summed cost: no partition of \<open>text\<close> into non-empty substrings
  has a strictly lower one.
\<close>

theorem split_minimal:
  assumes "TextSplitter_init (Some ws) = Inr sp"
    and "TextSplitter_split sp (PStr text) = Inr ts"
    and "concat alt = text" and "[] \<notin> set alt"
  shows "\<not> total_cost sp alt < total_cost sp ts"
proof (cases "0 < max_len sp")
  case True
  obtain c ts' where ok: "cost_ok sp text c" and len: "length c = length text + 1"
    and s: "TextSplitter_split sp (PStr text) = Inr ts'"
    and t: "total_cost sp ts' = c ! length text"
    using split_returns [OF True, of "text"] by blast
  have "c ! length text \<le> total_cost sp alt"
    using cost_ok_optimal [OF ok init_wf [OF assms(1)], of "length text" alt] len assms(3,4)
    by simp
  moreover have "ts' = ts" using s assms(2) by simp
  ultimately show ?thesis using t by simp
next
  case False
  then have z: "max_len sp = 0" by simp
  have e: "text = []"
  proof (rule ccontr)
    assume "text \<noteq> []"
    from split_no_window [OF z this] assms(2) show False by simp
  qed
  then have "ts = []" using assms(2) by (simp add: split_empty)
  moreover have "alt = []"
    using assms(3,4) e by (cases alt) auto
  ultimately show ?thesis by simp
qed

theorem split_minimal_witness:
  "TextSplitter_init (Some [PStr ''xy'', PStr ''z'']) = Inr tie_splitter \<and>
   TextSplitter_split tie_splitter (PStr ''xyz'') = Inr [''xy'', ''z''] \<and>
   concat [''x'', ''yz''] = ''xyz'' \<and> [] \<notin> set [''x'', ''yz''] \<and>
   \<not> total_cost tie_splitter [''x'', ''yz''] < total_cost tie_splitter [''xy'', ''z'']"
  using split_minimal [OF tie_splitter_init tie_splitter_split_xyz, of "[''x'', ''yz'']"]
    tie_splitter_init tie_splitter_split_xyz
  by simp

text \<open>
  C8. Every token that \<open>split\<close> returns is non-empty and has at most \<open>max_len\<close>
  characters, and \<open>max_len\<close> is the length of the longest word of the frequency list.
\<close>

theorem split_token_length:
  assumes "TextSplitter_init (Some ws) = Inr sp"
    and "TextSplitter_split sp (PStr text) = Inr ts"
    and "t \<in> set ts"
  shows "t \<noteq> [] \<and> length t \<le> max_len sp \<and>
    max_len sp = Max (set (map (\<lambda>w. length (the_str w)) ws))"
proof -
  have "0 < max_len sp"
  proof (rule ccontr)
    assume "\<not> 0 < max_len sp"
    then have z: "max_len sp = 0" by simp
    have "text \<noteq> []" using assms(2,3) by (auto simp: split_empty)
    from split_no_window [OF z this] assms(2) show False by simp
  qed
  from split_returns [OF this, of "text"] assms(2,3)
  have "t \<noteq> [] \<and> length t \<le> max_len sp" by auto
  then show ?thesis using init_Inr(2) [OF assms(1)] by simp
qed

theorem split_token_length_witness:
  "TextSplitter_init (Some [PStr ''xy'', PStr ''z'']) = Inr tie_splitter \<and>
   TextSplitter_split tie_splitter (PStr ''xyz'') = Inr [''xy'', ''z''] \<and>
   ''xy'' \<in> set [''xy'', ''z''] \<and>
   ''xy'' \<noteq> [] \<and> length ''xy'' \<le> max_len tie_splitter \<and>
   max_len tie_splitter = Max (set (map (\<lambda>w. length (the_str w)) [PStr ''xy'', PStr ''z'']))"
  using split_token_length [OF tie_splitter_init tie_splitter_split_xyz, of "''xy''"]
    tie_splitter_init tie_splitter_split_xyz
  by simp

text \<open>
  C9. The assertion of the backtracking pass never fails: \<open>split\<close> never raises
  \<open>AssertionError\<close>, and at every position of the text \<open>best_match\<close> on the finished cost
  array gives the cost recorded at that position.
\<close>

theorem split_assertion_holds:
  "TextSplitter_split sp (PStr text) \<noteq> Inl AssertionError \<and>
   (\<forall>cost i. build_cost sp text [1..<length text + 1] [Fin 0] = Inr cost \<and> 0 < i \<and>
       i \<le> length text \<longrightarrow> (\<exists>l. best_match sp text cost i = Inr (cost ! i, l)))"
proof (cases "0 < max_len sp")
  case True
  obtain c ts where b: "build_cost sp text [1..<length text + 1] [Fin 0] = Inr c"
    and ok: "cost_ok sp text c" and len: "length c = length text + 1"
    and s: "TextSplitter_split sp (PStr text) = Inr ts"
    using split_returns [OF True, of "text"] by blast
  have "\<exists>l. best_match sp text c i = Inr (c ! i, l)" if "0 < i" and "i \<le> length text" for i
    using ok len that by (simp add: cost_ok_def)
  then show ?thesis using b s by auto
next
  case False
  then have z: "max_len sp = 0" by simp
  show ?thesis
  proof (cases "text = []")
    case True
    then show ?thesis by (simp add: split_empty)
  next
    case False
    have r: "[1..<length text + 1] = 1 # [Suc 1..<length text + 1]"
      by (rule upt_conv_Cons) (use False in simp)
    have "build_cost sp text [1..<length text + 1] [Fin 0]
        = Inl (ValueError ''min() arg is an empty sequence'')"
      unfolding r by (simp add: best_match_no_window [OF z])
    then show ?thesis using split_no_window [OF z False] by simp
  qed
qed

theorem split_assertion_holds_witness:
  "TextSplitter_split tie_splitter (PStr ''ab'') \<noteq> Inl AssertionError \<and>
   build_cost tie_splitter ''ab'' [1..<length ''ab'' + 1] [Fin 0] = Inr [Fin 0, PInf, PInf] \<and>
   (0::nat) < 2 \<and> 2 \<le> length ''ab'' \<and>
   (\<exists>l. best_match tie_splitter ''ab'' [Fin 0, PInf, PInf] 2 = Inr ([Fin 0, PInf, PInf] ! 2, l))"
proof -
  note b = tie_splitter_build_ab
  have c1: "(0::nat) < 2" and c2: "2 \<le> length ''ab''" by simp_all
  from split_assertion_holds [of tie_splitter "''ab''"]
  have a: "TextSplitter_split tie_splitter (PStr ''ab'') \<noteq> Inl AssertionError"
    and r: "\<forall>cost i. build_cost tie_splitter ''ab'' [1..<length ''ab'' + 1] [Fin 0] = Inr cost \<and>
      0 < i \<and> i \<le> length ''ab'' \<longrightarrow> (\<exists>l. best_match tie_splitter ''ab'' cost i = Inr (cost ! i, l))"
    by blast+
  from r b c1 c2
  have "\<exists>l. best_match tie_splitter ''ab'' [Fin 0, PInf, PInf] 2 = Inr ([Fin 0, PInf, PInf] ! 2, l)"
    by blast
  with a b c1 c2 show ?thesis by blast
qed

lemma dup_splitter_init:
  "TextSplitter_init (Some [PStr ''a'', PStr ''b'', PStr ''a'']) = Inr dup_splitter"
  by (simp add: TextSplitter_init_def dup_splitter_def py_log_def enumerate_eq_zip upt_rec
      fun_upd_twist)

text \<open>
  C3, as stated, fails. With the splitter built from \<open>["xy", "z"]\<close> and the text
  \<open>"ab"\<close>, the forward pass reaches position \<open>2\<close> with the cost array \<open>[0, inf]\<close>; the
  candidate of length \<open>1\<close> and the candidate of length \<open>2\<close> both cost infinity, and
  \<open>best_match\<close> returns the length \<open>1\<close>: \<open>split\<close> gives \<open>["a", "b"]\<close>, not
  \<open>["ab"]\<close>.
\<close>

theorem best_match_longest_counterexample:
  "TextSplitter_init (Some [PStr ''xy'', PStr ''z'']) = Inr tie_splitter \<and>
   candidate_cost tie_splitter ''ab'' [Fin 0, PInf] 2 1 = PInf \<and>
   candidate_cost tie_splitter ''ab'' [Fin 0, PInf] 2 2 = PInf \<and>
   best_match tie_splitter ''ab'' [Fin 0, PInf] 2 = Inr (PInf, 1) \<and>
   TextSplitter_split tie_splitter (PStr ''ab'') = Inr [''a'', ''b'']"
  using tie_splitter_init tie_splitter_candidates tie_splitter_best_match tie_splitter_split_ab
  by simp

text \<open>
  C3, amended. \<open>best_match\<close> returns the least total cost among the candidates and,
  among the candidates of that cost, the shortest token: scanning the lengths from the
  shortest to the longest and keeping the first minimum.
\<close>

theorem best_match_prefers_shortest:
  assumes "i \<le> length cost" and "best_match sp text cost i = Inr (c, l)"
    and "1 \<le> l'" and "l' \<le> i" and "l' \<le> max_len sp"
  shows "1 \<le> l \<and> l \<le> i \<and> l \<le> max_len sp \<and> c = candidate_cost sp text cost i l \<and>
    c \<le> candidate_cost sp text cost i l' \<and>
    (candidate_cost sp text cost i l' = c \<longrightarrow> l \<le> l')"
proof -
  note p = best_match_props [OF assms(1,2)]
  from p(5) [OF assms(3,4,5)]
  have "c \<le> candidate_cost sp text cost i l' \<and>
      (candidate_cost sp text cost i l' = c \<longrightarrow> l \<le> l')"
    by (auto simp: less_eq_prod_def)
  with p(1-4) show ?thesis by blast
qed

theorem best_match_prefers_shortest_witness:
  "2 \<le> length [Fin 0, PInf] \<and>
   best_match tie_splitter ''ab'' [Fin 0, PInf] 2 = Inr (PInf, 1) \<and>
   (1::nat) \<le> 2 \<and> (2::nat) \<le> 2 \<and> 2 \<le> max_len tie_splitter \<and>
   PInf = candidate_cost tie_splitter ''ab'' [Fin 0, PInf] 2 1 \<and>
   candidate_cost tie_splitter ''ab'' [Fin 0, PInf] 2 2 = PInf \<and> (1::nat) \<le> 2"
proof -
  have h: "2 \<le> length [Fin 0, PInf]" "(1::nat) \<le> 2" "(2::nat) \<le> 2" "2 \<le> max_len tie_splitter"
    by (simp_all add: tie_splitter_def)
  from best_match_prefers_shortest [OF h(1) tie_splitter_best_match h(2,3,4)]
  have "PInf = candidate_cost tie_splitter ''ab'' [Fin 0, PInf] 2 1" by blast
  with h tie_splitter_best_match tie_splitter_candidates(2) show ?thesis by blast
qed

text \<open>
  C6. The constructor is meant to accept every non-empty list of strings. A list of one
  word makes \<open>log(len(words))\<close> zero, and the logarithm of \<open>(0 + 1) * 0\<close> raises.
\<close>

theorem init_one_word:
  "TextSplitter_init (Some [PStr ''a'']) = Inl (ValueError ''math domain error'')"
  by (simp add: TextSplitter_init_def py_log_def)

text \<open>The constructor raises exactly in these cases.\<close>

lemma init_raises_iff:
  "(\<exists>e. TextSplitter_init words = Inl e) \<longleftrightarrow>
   (words = None \<or> (\<exists>ws. words = Some ws \<and> (ws = [] \<or> \<not> list_all is_str ws \<or> length ws = 1)))"
proof (cases words)
  case None
  then show ?thesis by (simp add: TextSplitter_init_def)
next
  case (Some ws)
  consider "ws = []" | "ws \<noteq> []" "\<not> list_all is_str ws"
    | "list_all is_str ws" "length ws = 1" | "list_all is_str ws" "2 \<le> length ws"
    by (cases ws) (auto simp: Suc_le_eq)
  then show ?thesis
  proof cases
    case 1
    with Some show ?thesis by (simp add: TextSplitter_init_def)
  next
    case 2
    with Some show ?thesis by (simp add: TextSplitter_init_def)
  next
    case 3
    then obtain w where "ws = [w]" "is_str w" by (cases ws) auto
    with Some init_single [of w] show ?thesis by simp
  next
    case 4
    with Some init_returns [OF 4(2) 4(1)] show ?thesis by auto
  qed
qed

text \<open>
  C7, as stated, fails when a word occurs twice in the frequency list: the later
  occurrence overwrites the cost. From \<open>["a", "b", "a"]\<close> the word at position \<open>0\<close>
  has the cost of position \<open>2\<close>, which is above the cost of the word at position \<open>1\<close>.
\<close>

theorem word_cost_duplicate_counterexample:
  "TextSplitter_init (Some [PStr ''a'', PStr ''b'', PStr ''a'']) = Inr dup_splitter \<and>
   word_cost dup_splitter ''a'' = Some (Fin (ln (3 * ln 3))) \<and>
   Fin (ln (3 * ln 3)) \<noteq> Fin (ln (real (0 + 1) * ln (real 3))) \<and>
   word_cost dup_splitter ''b'' = Some (Fin (ln (2 * ln 3))) \<and>
   Fin (ln (2 * ln 3)) < Fin (ln (3 * ln 3))"
proof -
  have p: "(0::real) < ln 3" by simp
  then have "ln (3 * ln 3) \<noteq> ln (ln (3::real))"
    by (simp add: ln_inj_iff)
  moreover have "ln (2 * ln 3) < ln (3 * ln (3::real))"
    using p by (simp add: ln_less_cancel_iff)
  ultimately show ?thesis
    using dup_splitter_init by (simp add: dup_splitter_def less_pyfloat_def)
qed

text \<open>
  C7, amended. When no word occurs twice in the frequency list, the stored cost of the word
  at position \<open>i\<close> is \<open>log((i + 1) * log(N))\<close>, and the stored costs do not decrease
  with the position.
\<close>

theorem word_cost_distinct:
  assumes "TextSplitter_init (Some ws) = Inr sp" and "distinct (map the_str ws)"
    and "i \<le> j" and "j < length ws"
  shows "word_cost sp (the_str (ws ! i)) = Some (Fin (ln (real (i + 1) * ln (real (length ws))))) \<and>
    word_cost sp (the_str (ws ! j)) = Some (Fin (ln (real (j + 1) * ln (real (length ws))))) \<and>
    Fin (ln (real (i + 1) * ln (real (length ws)))) \<le> Fin (ln (real (j + 1) * ln (real (length ws))))"
proof -
  have "i < length ws" using assms(3,4) by simp
  from init_lookup [OF assms(1,2) this] init_lookup [OF assms(1,2,4)]
    zipf_cost_mono [OF init_Inr_length(1) [OF assms(1)] assms(3)]
  show ?thesis by (simp add: zipf_cost_def)
qed

theorem word_cost_distinct_witness:
  "TextSplitter_init (Some [PStr ''xy'', PStr ''z'']) = Inr tie_splitter \<and>
   distinct (map the_str [PStr ''xy'', PStr ''z'']) \<and> (0::nat) \<le> 1 \<and>
   1 < length [PStr ''xy'', PStr ''z''] \<and>
   word_cost tie_splitter ''xy'' = Some (Fin (ln (real (0 + 1) * ln (real 2)))) \<and>
   word_cost tie_splitter ''z'' = Some (Fin (ln (real (1 + 1) * ln (real 2)))) \<and>
   Fin (ln (real (0 + 1) * ln (real 2))) \<le> Fin (ln (real (1 + 1) * ln (real 2)))"
proof -
  have h: "distinct (map the_str [PStr ''xy'', PStr ''z''])" "(0::nat) \<le> 1"
    "1 < length [PStr ''xy'', PStr ''z'']"
    by simp_all
  from word_cost_distinct [OF tie_splitter_init h] tie_splitter_init h
  show ?thesis by simp
qed

section \<open>Correcting a word\<close>

lemma the_she_splitter_init:
  "TextSplitter_init (Some [PStr ''the'', PStr ''she'']) = Inr the_she_splitter"
  by (simp add: TextSplitter_init_def the_she_splitter_def py_log_def enumerate_eq_zip upt_rec)

lemma the_she_split_the:
  "TextSplitter_split the_she_splitter (PStr ''the'') = Inr [''the'']"
  by (simp add: the_she_splitter_def split_eval)

lemma the_she_split_she:
  "TextSplitter_split the_she_splitter (PStr ''she'') = Inr [''she'']"
  by (simp add: the_she_splitter_def split_eval)

lemma the_she_cost_order: "Fin (ln (ln 2)) < Fin (ln (2 * ln 2))"
proof -
  have "(0::real) < ln 2" by simp
  then have "ln (ln 2) < ln (2 * ln (2::real))"
    by (simp add: ln_less_cancel_iff)
  then show ?thesis by (simp add: less_pyfloat_def)
qed

lemma the_she_fields:
  "splitter the_she_analyzer = the_she_splitter"
  "number_of_corrected_words the_she_analyzer = 2"
  "number_similar_words the_she_analyzer = 4"
  "tree_find the_she_analyzer ''the'' (distance the_she_analyzer) = [(0, ''the''), (1, ''she'')]"
  by (simp_all add: the_she_analyzer_def)

lemma the_she_total_cost:
  "get_total_cost the_she_analyzer ''the'' = Inr (Fin (ln (ln 2)))"
  "get_total_cost the_she_analyzer ''she'' = Inr (Fin (ln (2 * ln 2)))"
  by (simp_all add: get_total_cost_def the_she_fields the_she_split_the the_she_split_she)
    (simp_all add: the_she_splitter_def)

lemma the_she_similar:
  "get_similar_words the_she_analyzer ''the'' = Inr (Some [''the'', ''she''])"
proof -
  have "\<not> Fin (ln (2 * ln 2)) \<le> Fin (ln (ln 2))" using the_she_cost_order by simp
  then have s: "sort [(Fin (ln (ln 2)), ''the''), (Fin (ln (2 * ln 2)), ''she'')]
      = [(Fin (ln (ln 2)), ''the''), (Fin (ln (2 * ln 2)), ''she'')]"
    using the_she_cost_order by (simp add: less_eq_prod_def)
  show ?thesis
    unfolding get_similar_words_def the_she_fields Let_def
    by (simp add: the_she_total_cost s py_slice_def the_she_cost_order)
qed

lemma the_she_cleaned:
  "cleaned_word the_she_analyzer ''the'' (Some ''the'') = Inr ''the''"
  "cleaned_word the_she_analyzer [] None = Inr []"
  "cleaned_word the_she_analyzer ''thethe'' None = Inr ''the''"
  by (simp_all add: cleaned_word_def the_she_analyzer_def detect_repeated_word_def
      py_range_step_def py_slice_def upt_rec)

lemma the_she_correct_the:
  "get_correct_words the_she_analyzer ''the'' (Some ''the'') = Inr {''the''}"
  by (simp add: get_correct_words_def the_she_cleaned the_she_fields the_she_split_the
      the_she_similar py_slice_def)

lemma the_she_correct_empty:
  "get_correct_words the_she_analyzer [] None = Inr {}"
  by (simp add: get_correct_words_def the_she_cleaned the_she_fields split_empty py_slice_def)

lemma the_she_correct_thethe:
  "get_correct_words the_she_analyzer ''thethe'' None = Inr {''the''}"
  by (simp add: get_correct_words_def the_she_cleaned the_she_fields the_she_split_the
      the_she_similar py_slice_def)

lemma py_slice_prefix: "0 \<le> n \<Longrightarrow> py_slice 0 n xs = take (nat n) xs"
  using py_slice_nat [of 0 "nat n" xs] by simp

lemma py_slice_Nil [simp]: "py_slice a b [] = []"
  by (simp add: py_slice_def)

lemma correct_words_unfold:
  assumes "cleaned_word a word clear_word = Inr w"
    and "TextSplitter_split (splitter a) (PStr w) = Inr parts"
  shows "get_correct_words a word clear_word =
    (if length parts < 2 then
       (case collect_similar a parts [] of
          Inl e \<Rightarrow> Inl e
        | Inr arr \<Rightarrow> Inr (set (if w \<noteq> [] then [w] else [])))
     else
       (case splice_outer a parts [0..<length parts] [] of
          Inl e \<Rightarrow> Inl e
        | Inr evaluated_words \<Rightarrow>
            Inr (set (map snd
              (if w \<noteq> [] then py_slice 0 (number_of_corrected_words a) (sort evaluated_words) @ [(Fin 0, w)]
               else py_slice 0 (number_of_corrected_words a) (sort evaluated_words))))))"
  by (simp add: get_correct_words_def Let_def assms split: sum.split)

lemma correct_words_cases:
  assumes "get_correct_words a word clear_word = Inr S"
  obtains w parts arr where "cleaned_word a word clear_word = Inr w"
      and "TextSplitter_split (splitter a) (PStr w) = Inr parts"
      and "length parts < 2" and "collect_similar a parts [] = Inr arr"
      and "S = set (if w \<noteq> [] then [w] else [])"
  | w parts evaluated_words where "cleaned_word a word clear_word = Inr w"
      and "TextSplitter_split (splitter a) (PStr w) = Inr parts"
      and "\<not> length parts < 2"
      and "splice_outer a parts [0..<length parts] [] = Inr evaluated_words"
      and "S = set (map snd
            (if w \<noteq> [] then py_slice 0 (number_of_corrected_words a) (sort evaluated_words) @ [(Fin 0, w)]
             else py_slice 0 (number_of_corrected_words a) (sort evaluated_words)))"
proof -
  obtain w where w: "cleaned_word a word clear_word = Inr w"
    using assms by (cases "cleaned_word a word clear_word") (simp_all add: get_correct_words_def)
  obtain parts where p: "TextSplitter_split (splitter a) (PStr w) = Inr parts"
    using assms w
    by (cases "TextSplitter_split (splitter a) (PStr w)") (simp_all add: get_correct_words_def)
  note u = assms [unfolded correct_words_unfold [OF w p]]
  show thesis
  proof (cases "length parts < 2")
    case True
    with u obtain arr where "collect_similar a parts [] = Inr arr"
      and "S = set (if w \<noteq> [] then [w] else [])"
      by (cases "collect_similar a parts []") auto
    then show thesis using that(1) w p True by blast
  next
    case False
    with u obtain ev where "splice_outer a parts [0..<length parts] [] = Inr ev"
      and "S = set (map snd
            (if w \<noteq> [] then py_slice 0 (number_of_corrected_words a) (sort ev) @ [(Fin 0, w)]
             else py_slice 0 (number_of_corrected_words a) (sort ev)))"
      by (cases "splice_outer a parts [0..<length parts] []") auto
    then show thesis using that(2) w p False by blast
  qed
qed

text \<open>
  C4. The branch for fewer than two parts is meant to return the cheapest similar words of
  the parts together with the word itself. The similar words of \<open>"the"\<close> are \<open>"the"\<close> and
  \<open>"she"\<close>, yet correcting \<open>"the"\<close> returns \<open>"the"\<close> alone: the list that collected them
  is overwritten before it is returned.
\<close>

theorem correct_words_drops_similar:
  "TextSplitter_init (Some [PStr ''the'', PStr ''she'']) = Inr (splitter the_she_analyzer) \<and>
   TextSplitter_split (splitter the_she_analyzer) (PStr ''the'') = Inr [''the''] \<and>
   collect_similar the_she_analyzer [''the''] [] = Inr [''the'', ''she''] \<and>
   get_correct_words the_she_analyzer ''the'' (Some ''the'') = Inr {''the''}"
  by (simp add: the_she_fields the_she_splitter_init the_she_split_the the_she_similar
      the_she_correct_the)

text \<open>
  Whatever the index finds, the branch for fewer than two parts returns the word alone,
  or nothing when the word is empty.
\<close>

lemma correct_words_single_part:
  assumes "get_correct_words a word clear_word = Inr S"
    and "cleaned_word a word clear_word = Inr w"
    and "TextSplitter_split (splitter a) (PStr w) = Inr parts" and "length parts < 2"
  shows "S = (if w = [] then {} else {w})"
  using assms by (auto elim!: correct_words_cases)

text \<open>
  C5, as stated, fails: the word is appended only when it is not empty. Correcting the
  empty word, which cleaning leaves empty, returns the empty set. Moreover the word that
  is appended is the repeated part when the cleaned word is a repetition: correcting
  \<open>"thethe"\<close>, which is clean, returns \<open>"the"\<close> alone.
\<close>

theorem correct_words_fallback_counterexample:
  "get_clear_word the_she_analyzer [] = Inr [] \<and>
   get_correct_words the_she_analyzer [] None = Inr {} \<and>
   get_clear_word the_she_analyzer ''thethe'' = Inr ''thethe'' \<and>
   get_correct_words the_she_analyzer ''thethe'' None = Inr {''the''} \<and>
   ''thethe'' \<notin> {''the''}"
  by (simp add: the_she_correct_empty the_she_correct_thethe) (simp add: the_she_analyzer_def)

text \<open>
  C5, amended. The set that \<open>_get_correct_words\<close> returns contains the word it corrects
  (the cleaned input word, replaced by its repeated part when one is detected) whenever
  that word is not empty; when it is empty, the set is empty.
\<close>

theorem correct_words_fallback:
  assumes "get_correct_words a word clear_word = Inr S"
  shows "\<exists>w. cleaned_word a word clear_word = Inr w \<and> (w \<noteq> [] \<longrightarrow> w \<in> S) \<and>
    (w = [] \<longrightarrow> S = {})"
  using assms
proof (cases rule: correct_words_cases)
  case (1 w parts arr)
  then show ?thesis by auto
next
  case (2 w parts evaluated_words)
  have "w \<noteq> []"
  proof
    assume "w = []"
    with 2(2) have "parts = []" by (simp add: split_empty)
    with 2(3) show False by simp
  qed
  with 2(1,5) show ?thesis by auto
qed

theorem correct_words_fallback_witness:
  "get_correct_words the_she_analyzer ''the'' (Some ''the'') = Inr {''the''} \<and>
   cleaned_word the_she_analyzer ''the'' (Some ''the'') = Inr ''the'' \<and>
   ''the'' \<noteq> [] \<and> ''the'' \<in> {''the''}"
  using correct_words_fallback [OF the_she_correct_the] the_she_correct_the the_she_cleaned(1)
  by simp

text \<open>The example with two parts, evaluated.\<close>

lemma abcd_splitter_init:
  "TextSplitter_init (Some [PStr ''ab'', PStr ''cd'', PStr ''abcx'', PStr ''abcy''])
     = Inr abcd_splitter"
  by (simp add: TextSplitter_init_def abcd_splitter_def py_log_def enumerate_eq_zip upt_rec)

lemma abcd_split:
  "TextSplitter_split abcd_splitter (PStr ''abcd'') = Inr [''ab'', ''cd'']"
  "TextSplitter_split abcd_splitter (PStr ''abcx'') = Inr [''abcx'']"
  "TextSplitter_split abcd_splitter (PStr ''abcy'') = Inr [''abcy'']"
  by (simp_all add: abcd_splitter_def split_eval)

lemma abcd_cost_order: "Fin (ln (3 * ln 4)) < Fin (ln (4 * ln 4))"
proof -
  have "(0::real) < ln 4" by simp
  then have "ln (3 * ln 4) < ln (4 * ln (4::real))"
    by (simp add: ln_less_cancel_iff)
  then show ?thesis by (simp add: less_pyfloat_def)
qed

lemma abcd_fields:
  "splitter (abcd_analyzer n) = abcd_splitter"
  "number_of_corrected_words (abcd_analyzer n) = n"
  "number_similar_words (abcd_analyzer n) = 4"
  "threshold (abcd_analyzer n) = 2"
  "tree_find (abcd_analyzer n) ''abcd'' (distance (abcd_analyzer n))
     = [(1, ''abcx''), (1, ''abcy'')]"
  by (simp_all add: abcd_analyzer_def)

lemma abcd_total_cost:
  "get_total_cost (abcd_analyzer n) ''abcx'' = Inr (Fin (ln (3 * ln 4)))"
  "get_total_cost (abcd_analyzer n) ''abcy'' = Inr (Fin (ln (4 * ln 4)))"
  by (simp_all add: get_total_cost_def abcd_fields abcd_split)
    (simp_all add: abcd_splitter_def)

lemma abcd_similar:
  "get_similar_words (abcd_analyzer n) ''abcd'' = Inr (Some [''abcx'', ''abcy''])"
  unfolding get_similar_words_def abcd_fields Let_def
  by (simp add: abcd_total_cost abcd_cost_order py_slice_def)

lemma abcd_cleaned:
  "cleaned_word (abcd_analyzer n) ''abcd'' None = Inr ''abcd''"
  by (simp add: cleaned_word_def abcd_analyzer_def detect_repeated_word_def
      py_range_step_def py_slice_def upt_rec)

lemma abcd_replace:
  "replace_correcting_parts (abcd_analyzer n) [''ab'', ''cd''] [''abcx'', ''abcy''] (0, 1)
     = Inr [(Fin (ln (3 * ln 4)), ''abcx''), (Fin (ln (4 * ln 4)), ''abcy'')]"
  by (simp add: replace_correcting_parts_def py_slice_def abcd_total_cost)

lemma abcd_splice:
  "splice_outer (abcd_analyzer n) [''ab'', ''cd''] [0..<length [''ab'', ''cd'']] []
     = Inr [(Fin (ln (3 * ln 4)), ''abcx''), (Fin (ln (4 * ln 4)), ''abcy'')]"
proof -
  have c: "concat (py_slice 0 2 [''ab'', ''cd'']) = ''abcd''" by (simp add: py_slice_def)
  show ?thesis
    by (simp add: abcd_fields c abcd_similar abcd_replace)
qed

lemma abcd_correct_one:
  "get_correct_words (abcd_analyzer 1) ''abcd'' None = Inr {''abcx'', ''abcd''}"
proof -
  note u = correct_words_unfold [OF abcd_cleaned, unfolded abcd_fields, OF abcd_split(1)]
  have s: "py_slice 0 1 [(Fin (ln (3 * ln 4)), ''abcx''), (Fin (ln (4 * ln 4)), ''abcy'')]
      = [(Fin (ln (3 * ln 4)), ''abcx'')]"
    by (simp add: py_slice_def)
  show ?thesis
    unfolding u abcd_splice abcd_fields by (simp add: s abcd_cost_order insert_commute)
qed

lemma abcd_correct_negative:
  "get_correct_words (abcd_analyzer (- 1)) ''abcd'' None = Inr {''abcx'', ''abcd''}"
proof -
  note u = correct_words_unfold [OF abcd_cleaned, unfolded abcd_fields, OF abcd_split(1)]
  have s: "py_slice 0 (- 1) [(Fin (ln (3 * ln 4)), ''abcx''), (Fin (ln (4 * ln 4)), ''abcy'')]
      = [(Fin (ln (3 * ln 4)), ''abcx'')]"
    by (simp add: py_slice_def)
  show ?thesis
    unfolding u abcd_splice abcd_fields by (simp add: s abcd_cost_order insert_commute)
qed

text \<open>
  C10, as stated, fails for a negative \<open>number_of_corrected_words\<close>: the slice
  \<open>sorted(evaluated_words)[:-1]\<close> drops the last candidate instead of keeping none. With
  the count \<open>-1\<close>, correcting \<open>"abcd"\<close> over the frequency list
  \<open>["ab", "cd", "abcx", "abcy"]\<close> returns two words, against a bound of \<open>-1 + 1 = 0\<close>.
\<close>

theorem correct_words_card_counterexample:
  "TextSplitter_init (Some [PStr ''ab'', PStr ''cd'', PStr ''abcx'', PStr ''abcy''])
     = Inr (splitter (abcd_analyzer (- 1))) \<and>
   number_of_corrected_words (abcd_analyzer (- 1)) = - 1 \<and>
   get_correct_words (abcd_analyzer (- 1)) ''abcd'' None = Inr {''abcx'', ''abcd''} \<and>
   card {''abcx'', ''abcd''} = 2 \<and>
   \<not> int (card {''abcx'', ''abcd''}) \<le> number_of_corrected_words (abcd_analyzer (- 1)) + 1"
  by (simp add: abcd_fields abcd_splitter_init abcd_correct_negative)

text \<open>
  C10, amended. When \<open>number_of_corrected_words\<close> is not negative, the set that
  \<open>_get_correct_words\<close> returns has at most \<open>number_of_corrected_words + 1\<close> elements.
\<close>

theorem correct_words_card:
  assumes "get_correct_words a word clear_word = Inr S"
    and "0 \<le> number_of_corrected_words a"
  shows "finite S \<and> int (card S) \<le> number_of_corrected_words a + 1"
  using assms(1)
proof (cases rule: correct_words_cases)
  case (1 w parts arr)
  have "card (set (if w \<noteq> [] then [w] else [])) \<le> length (if w \<noteq> [] then [w] else [])"
    by (rule card_length)
  also have "\<dots> \<le> 1" by simp
  finally have "card S \<le> 1" unfolding 1(5) .
  then have "int (card S) \<le> number_of_corrected_words a + 1" using assms(2) by linarith
  moreover have "finite S" unfolding 1(5) by (rule finite_set)
  ultimately show ?thesis by (rule conjI [rotated])
next
  case (2 w parts evaluated_words)
  let ?xs = "py_slice 0 (number_of_corrected_words a) (sort evaluated_words)"
  let ?arr = "if w \<noteq> [] then ?xs @ [(Fin 0, w)] else ?xs"
  have "length ?xs \<le> nat (number_of_corrected_words a)"
    unfolding py_slice_prefix [OF assms(2)] by (rule length_take [THEN eq_refl, THEN order_trans]) simp
  moreover have "length (if w \<noteq> [] then xs @ [(Fin 0, w)] else xs) \<le> k + 1"
    if "length xs \<le> k" for xs :: "(pyfloat \<times> string) list" and k
    using that by simp
  ultimately have l: "length ?arr \<le> nat (number_of_corrected_words a) + 1"
    by blast
  have "card (set (map snd ?arr)) \<le> length (map snd ?arr)" by (rule card_length)
  also have "\<dots> = length ?arr" by (rule length_map)
  finally have "card S \<le> nat (number_of_corrected_words a) + 1"
    unfolding 2(5) using l by (rule order_trans)
  then have "int (card S) \<le> number_of_corrected_words a + 1" using assms(2) by linarith
  moreover have "finite S" unfolding 2(5) by (rule finite_set)
  ultimately show ?thesis by (rule conjI [rotated])
qed

theorem correct_words_card_witness:
  "get_correct_words (abcd_analyzer 1) ''abcd'' None = Inr {''abcx'', ''abcd''} \<and>
   0 \<le> number_of_corrected_words (abcd_analyzer 1) \<and>
   finite {''abcx'', ''abcd''} \<and>
   int (card {''abcx'', ''abcd''}) \<le> number_of_corrected_words (abcd_analyzer 1) + 1"
proof -
  have h: "0 \<le> number_of_corrected_words (abcd_analyzer 1)" by (simp add: abcd_fields)
  from correct_words_card [OF abcd_correct_one h] abcd_correct_one h
  show ?thesis by blast
qed

end
